theory Spec2Isabelle
  imports Main "HOL-Library.Sublist"
begin

section \<open>Python values used by \<^verbatim>\<open>filter_responses.py\<close>\<close>

text \<open>
  Text is a list of characters; a character is a code point below 256. The exceptions
  that the two classes can raise are values of \<open>error\<close>, and an operation that may
  raise returns \<open>error + 'a\<close> with \<open>Inl\<close> the exception.
\<close>

datatype error = IndexError | FileNotFoundError

definition LF :: char where
  "LF = CHR 0x0A"

definition CR :: char where
  "CR = CHR 0x0D"

definition dquote :: char where
  "dquote = CHR 0x22"

definition space :: char where
  "space = CHR 0x20"

definition slash :: char where
  "slash = CHR 0x2F"

text \<open>
  \<^verbatim>\<open>xs[i]\<close>: a negative index counts from the end, and an index outside the list
  raises \<^verbatim>\<open>IndexError\<close>.
\<close>

definition py_index :: "'a list \<Rightarrow> int \<Rightarrow> error + 'a" where
  "py_index xs i =
     (let n = int (length xs);
          j = (if i < 0 then i + n else i)
      in if 0 \<le> j \<and> j < n then Inr (xs ! nat j) else Inl IndexError)"

text \<open>
  \<^verbatim>\<open>s.split(sep)\<close> for a separator of one character: the text is cut at every
  occurrence of the separator, empty pieces are kept, and the result is never empty
  (so the \<open>[]\<close> branch below is never taken). \<open>split_by\<close> cuts at every character
  that satisfies a test.
\<close>

fun split_by :: "(char \<Rightarrow> bool) \<Rightarrow> string \<Rightarrow> string list" where
  "split_by P [] = [[]]"
| "split_by P (c # cs) =
     (if P c then [] # split_by P cs
      else (case split_by P cs of
              [] \<Rightarrow> [[c]]
            | w # ws \<Rightarrow> (c # w) # ws))"

definition split_on :: "char \<Rightarrow> string \<Rightarrow> string list" where
  "split_on sep s = split_by (\<lambda>c. c = sep) s"

text \<open>
  \<^verbatim>\<open>s.lower()\<close> on code points below 256: the letters A to Z and the Latin-1
  capitals (192 to 214, 216 to 222) move up by 32, everything else stays.
\<close>

definition lower_char :: "char \<Rightarrow> char" where
  "lower_char c =
     (let n = (of_char c :: nat)
      in if (65 \<le> n \<and> n \<le> 90) \<or> (192 \<le> n \<and> n \<le> 214) \<or> (216 \<le> n \<and> n \<le> 222)
         then char_of (n + 32) else c)"

definition lower :: "string \<Rightarrow> string" where
  "lower s = map lower_char s"

text \<open>\<^verbatim>\<open>s.endswith(suffix)\<close>: the last \<open>length suffix\<close> characters of \<open>s\<close> are \<open>suffix\<close>.\<close>

definition endswith :: "string \<Rightarrow> string \<Rightarrow> bool" where
  "endswith s suf \<longleftrightarrow> length suf \<le> length s \<and> drop (length s - length suf) s = suf"


section \<open>Text files\<close>

text \<open>
  The file store maps a file name to the stored text. Opening a missing file for reading
  raises \<^verbatim>\<open>FileNotFoundError\<close>; opening for writing creates or empties the file.
  A file opened in text mode is read with universal newlines: \<open>CR LF\<close> and a lone
  \<open>CR\<close> arrive as \<open>LF\<close>. Written text is stored as it is (the POSIX line separator).
\<close>

type_synonym fs = "string \<rightharpoonup> string"

fun universal_newlines :: "string \<Rightarrow> string" where
  "universal_newlines [] = []"
| "universal_newlines [c] = [if c = CR then LF else c]"
| "universal_newlines (c # d # cs) =
     (if c = CR \<and> d = LF then LF # universal_newlines cs
      else if c = CR then LF # universal_newlines (d # cs)
      else c # universal_newlines (d # cs))"

text \<open>
  \<^verbatim>\<open>file.readlines()\<close> and \<^verbatim>\<open>for line in file\<close>: the text is cut after every
  \<open>LF\<close>, and each line keeps its \<open>LF\<close>; only the last line can lack one.
\<close>

fun readlines :: "string \<Rightarrow> string list" where
  "readlines [] = []"
| "readlines (c # cs) =
     (if c = LF then [LF] # readlines cs
      else (case readlines cs of
              [] \<Rightarrow> [[c]]
            | l # ls \<Rightarrow> (c # l) # ls))"

definition read_lines_of :: "string \<Rightarrow> string list" where
  "read_lines_of stored = readlines (universal_newlines stored)"


section \<open>\<^verbatim>\<open>ResponseFilter\<close>\<close>

record ResponseFilter =
  filename :: string
  extension_filter :: string
  code_filter :: string
  filtered_elements_filename_start :: string
  filtered_elements_filename :: string

definition init :: "string \<Rightarrow> string \<Rightarrow> string \<Rightarrow> ResponseFilter" where
  "init fname ext code =
     \<lparr> filename = fname,
       extension_filter = ext,
       code_filter = code,
       filtered_elements_filename_start = ''gifs_'',
       filtered_elements_filename = ''gifs_'' @ fname \<rparr>"

definition get_last_path_element_from_log :: "string \<Rightarrow> error + string" where
  "get_last_path_element_from_log line =
     (case py_index (split_on dquote line) 1 of
        Inl e \<Rightarrow> Inl e
      | Inr request_param \<Rightarrow>
          (case py_index (split_on space request_param) 1 of
             Inl e \<Rightarrow> Inl e
           | Inr file_path \<Rightarrow>
               (let path_elements = split_on slash file_path
                in py_index path_elements (int (length path_elements) - 1))))"

text \<open>
  The method returns \<^verbatim>\<open>True\<close> or falls off its end and returns \<^verbatim>\<open>None\<close>, which
  its caller's \<^verbatim>\<open>if\<close> and the tests' \<^verbatim>\<open>assertFalse\<close> read as false: the result
  here is its truth value. Only the path element is lower-cased.
\<close>

definition last_path_element_passes_extension_filter :: "ResponseFilter \<Rightarrow> string \<Rightarrow> bool" where
  "last_path_element_passes_extension_filter rf last_path_element \<longleftrightarrow>
     endswith (lower last_path_element) (extension_filter rf)"

definition get_response_code_from_log :: "string \<Rightarrow> error + string" where
  "get_response_code_from_log line =
     (let response_elements = split_on space line
      in py_index response_elements (int (length response_elements) - 2))"

definition response_code_passes_filter :: "ResponseFilter \<Rightarrow> string \<Rightarrow> bool" where
  "response_code_passes_filter rf response_code \<longleftrightarrow> response_code = code_filter rf"

text \<open>
  The loop of \<^verbatim>\<open>create_new_file_with_filtered_elements\<close> over the lines still to
  read, with the text written to the output file so far. An exception ends the loop; what
  was written before it stays written, since leaving the \<^verbatim>\<open>with\<close> block closes the file.
\<close>

fun write_filtered :: "ResponseFilter \<Rightarrow> string list \<Rightarrow> string \<Rightarrow> error option \<times> string" where
  "write_filtered rf [] out = (None, out)"
| "write_filtered rf (line # rest) out =
     (case get_last_path_element_from_log line of
        Inl e \<Rightarrow> (Some e, out)
      | Inr last_path_element \<Rightarrow>
          if last_path_element_passes_extension_filter rf last_path_element
          then (case get_response_code_from_log line of
                  Inl e \<Rightarrow> (Some e, out)
                | Inr response_code \<Rightarrow>
                    if response_code_passes_filter rf response_code
                    then write_filtered rf rest (out @ last_path_element @ [LF])
                    else write_filtered rf rest out)
          else write_filtered rf rest out)"

definition create_new_file_with_filtered_elements :: "ResponseFilter \<Rightarrow> fs \<Rightarrow> error option \<times> fs" where
  "create_new_file_with_filtered_elements rf files =
     (case files (filename rf) of
        None \<Rightarrow> (Some FileNotFoundError, files)
      | Some stored \<Rightarrow>
          (let (err, out) = write_filtered rf (read_lines_of stored) []
           in (err, files(filtered_elements_filename rf \<mapsto> out))))"


section \<open>\<^verbatim>\<open>TextFileFilter\<close>\<close>

text \<open>
  \<^verbatim>\<open>set(file.readlines())\<close> keeps each distinct line once, and the loop that writes
  the set back visits its elements in an order the program does not choose: it depends on
  the hashes of the strings, which change from one interpreter run to the next. The order
  is the parameter \<open>iteration\<close>, which maps the lines read to the sequence in which the
  set is visited; \<open>iterates_set\<close> says that this sequence is an enumeration of the set.
\<close>

definition iterates_set :: "(string list \<Rightarrow> string list) \<Rightarrow> string list \<Rightarrow> bool" where
  "iterates_set iteration ls \<longleftrightarrow> distinct (iteration ls) \<and> set (iteration ls) = set ls"

definition filtered_lines :: "(string list \<Rightarrow> string list) \<Rightarrow> string \<Rightarrow> string list" where
  "filtered_lines iteration stored = iteration (read_lines_of stored)"

definition remove_duplicates :: "(string list \<Rightarrow> string list) \<Rightarrow> string \<Rightarrow> fs \<Rightarrow> error option \<times> fs" where
  "remove_duplicates iteration fname files =
     (case files fname of
        None \<Rightarrow> (Some FileNotFoundError, files)
      | Some stored \<Rightarrow> (None, files(fname \<mapsto> concat (filtered_lines iteration stored))))"


section \<open>Notions used to state the properties\<close>

text \<open>
  The lines a reader of a file sees (none when the file is missing), and the store
  that holds one file.
\<close>

definition file_lines :: "fs \<Rightarrow> string \<Rightarrow> string list" where
  "file_lines files fname = (case files fname of None \<Rightarrow> [] | Some stored \<Rightarrow> read_lines_of stored)"

definition single_file :: "string \<Rightarrow> string \<Rightarrow> fs" where
  "single_file fname stored = Map.empty(fname \<mapsto> stored)"

text \<open>A line that ends with its only \<open>LF\<close>.\<close>

definition terminated :: "string \<Rightarrow> bool" where
  "terminated l \<longleftrightarrow> l \<noteq> [] \<and> last l = LF \<and> LF \<notin> set (butlast l)"

text \<open>
  The request field of a log line is the text between its first and its second double
  quote (up to the end of the line when there is no second one).
  \<open>no_quote_or_no_space\<close> holds of a line that has no double quote or whose request
  field has no space character: these are the lines on which extracting the path element
  raises, as lemma \<open>get_last_path_element_from_log_eq\<close> below shows from the code.
\<close>

definition request_field :: "string \<Rightarrow> string" where
  "request_field line = takeWhile (\<lambda>c. c \<noteq> dquote) (tl (dropWhile (\<lambda>c. c \<noteq> dquote) line))"

definition no_quote_or_no_space :: "string \<Rightarrow> bool" where
  "no_quote_or_no_space line \<longleftrightarrow> dquote \<notin> set line \<or> space \<notin> set (request_field line)"

text \<open>
  The path element of a line (empty when extracting it raises), and the lines that pass
  both filters.
\<close>

definition last_element :: "string \<Rightarrow> string" where
  "last_element line = (case get_last_path_element_from_log line of Inl e \<Rightarrow> [] | Inr el \<Rightarrow> el)"

definition line_passes :: "ResponseFilter \<Rightarrow> string \<Rightarrow> bool" where
  "line_passes rf line \<longleftrightarrow>
     (case get_last_path_element_from_log line of
        Inl e \<Rightarrow> False
      | Inr el \<Rightarrow>
          last_path_element_passes_extension_filter rf el \<and>
          (case get_response_code_from_log line of
             Inl e \<Rightarrow> False
           | Inr code \<Rightarrow> response_code_passes_filter rf code))"

text \<open>
  The specification's splitting on whitespace is \<^verbatim>\<open>s.split()\<close>: the text is cut at
  every whitespace character and the empty pieces are dropped. The whitespace characters
  below code point 256 are 9 to 13, 28 to 32, 133 and 160.
\<close>

definition is_space :: "char \<Rightarrow> bool" where
  "is_space c \<longleftrightarrow>
     (let n = (of_char c :: nat)
      in (9 \<le> n \<and> n \<le> 13) \<or> (28 \<le> n \<and> n \<le> 32) \<or> n = 133 \<or> n = 160)"

definition spec_whitespace_tokens :: "string \<Rightarrow> string list" where
  "spec_whitespace_tokens s = filter (\<lambda>w. w \<noteq> []) (split_by is_space s)"

definition spec_last_path_element :: "string \<Rightarrow> string" where
  "spec_last_path_element line =
     last (split_on slash (spec_whitespace_tokens (split_on dquote line ! 1) ! 1))"

definition spec_response_code :: "string \<Rightarrow> string" where
  "spec_response_code line =
     (let tokens = spec_whitespace_tokens line in tokens ! (length tokens - 2))"

text \<open>
  The specification's malformed lines: a line without two pieces around a double quote,
  or one whose request field, read as the specification reads it, has no second token
  (no path).
\<close>

definition malformed :: "string \<Rightarrow> bool" where
  "malformed line \<longleftrightarrow>
     dquote \<notin> set line \<or> length (spec_whitespace_tokens (request_field line)) < 2"

text \<open>\<^verbatim>\<open>' '.join(tokens)\<close>: the tokens with one space between neighbours.\<close>

fun join_with_space :: "string list \<Rightarrow> string" where
  "join_with_space [] = []"
| "join_with_space [t] = t"
| "join_with_space (t # u # ts) = t @ space # join_with_space (u # ts)"

definition plain_token :: "string \<Rightarrow> bool" where
  "plain_token t \<longleftrightarrow> t \<noteq> [] \<and> (\<forall>c\<in>set t. \<not> is_space c \<and> c \<noteq> dquote)"

text \<open>
  Two orders in which a set of lines can be visited: in the order of the last
  occurrences, and in the reverse of that order.
\<close>

definition last_seen_iteration :: "string list \<Rightarrow> string list" where
  "last_seen_iteration ls = remdups ls"

definition reversed_iteration :: "string list \<Rightarrow> string list" where
  "reversed_iteration ls = rev (remdups ls)"


text \<open>
  A line in the format of the sample log of the tests, with the given request path and
  status code.
\<close>

definition log_line :: "string \<Rightarrow> string \<Rightarrow> string" where
  "log_line path code =
     ''d104.aa.net - - [01/Jul/1995:00:00:15 -0400] '' @ [dquote] @ ''GET '' @ path @
     '' HTTP/1.0'' @ [dquote] @ '' '' @ code @ '' 786'' @ [LF]"


section \<open>Indexing, splitting and lower-casing\<close>

lemma py_index_one: "py_index xs 1 = (if 2 \<le> length xs then Inr (xs ! 1) else Inl IndexError)"
  by (auto simp: py_index_def Let_def)

lemma py_index_last: "xs \<noteq> [] \<Longrightarrow> py_index xs (int (length xs) - 1) = Inr (last xs)"
  by (cases xs rule: rev_cases) (auto simp: py_index_def Let_def nth_append)

lemma py_index_before_last:
  "xs \<noteq> [] \<Longrightarrow> py_index xs (int (length xs) - 2) =
     Inr (if 2 \<le> length xs then xs ! (length xs - 2) else last xs)"
  by (cases xs rule: rev_cases) (auto simp: py_index_def Let_def nth_append nat_diff_distrib Suc_le_eq)

lemma split_by_not_Nil [simp]: "split_by P s \<noteq> []"
  by (induction s) (auto split: list.splits)

lemma split_by_no_sep: "\<forall>c\<in>set s. \<not> P c \<Longrightarrow> split_by P s = [s]"
  by (induction s) auto

lemma split_by_append:
  "\<forall>c\<in>set xs. \<not> P c \<Longrightarrow> P c \<Longrightarrow> split_by P (xs @ c # ys) = xs # split_by P ys"
  by (induction xs) auto

lemma split_by_cong: "\<forall>c\<in>set s. P c = Q c \<Longrightarrow> split_by P s = split_by Q s"
  by (induction s) auto

lemma length_split_by: "length (split_by P s) = Suc (length (filter P s))"
  by (induction s) (auto split: list.splits)

lemma of_char_lower_char:
  "of_char (lower_char c) = (let n = (of_char c :: nat) in
     if (65 \<le> n \<and> n \<le> 90) \<or> (192 \<le> n \<and> n \<le> 214) \<or> (216 \<le> n \<and> n \<le> 222) then n + 32 else n)"
  by (auto simp: lower_char_def Let_def)

lemma lower_char_idem [simp]: "lower_char (lower_char c) = lower_char c"
proof -
  have "(of_char (lower_char (lower_char c)) :: nat) = of_char (lower_char c)"
    unfolding of_char_lower_char [of "lower_char c"] by (auto simp: of_char_lower_char Let_def)
  then show ?thesis by (metis of_char_eq_iff)
qed

lemma lower_idem [simp]: "lower (lower s) = lower s"
  by (simp add: lower_def)

lemma lower_append [simp]: "lower (a @ b) = lower a @ lower b"
  by (simp add: lower_def)

lemma length_lower [simp]: "length (lower s) = length s"
  by (simp add: lower_def)

lemma endswith_iff: "endswith s suf \<longleftrightarrow> (\<exists>p. s = p @ suf)"
proof
  assume "endswith s suf"
  then have "s = take (length s - length suf) s @ suf"
    by (metis append_take_drop_id endswith_def)
  then show "\<exists>p. s = p @ suf" ..
next
  assume "\<exists>p. s = p @ suf"
  then show "endswith s suf" by (auto simp: endswith_def)
qed

lemma endswith_lower_fixed:
  assumes "endswith (lower e) x"
  shows "lower x = x"
proof -
  from assms obtain p where p: "lower e = p @ x" by (auto simp: endswith_iff)
  have "lower (p @ x) = p @ x" by (metis p lower_idem)
  then have "lower p @ lower x = p @ x" by simp
  then show ?thesis by simp
qed


section \<open>Reading lines\<close>

lemma CR_neq_LF [simp]: "CR \<noteq> LF" "LF \<noteq> CR"
  by (simp_all add: CR_def LF_def)

lemma universal_newlines_no_CR: "CR \<notin> set (universal_newlines s)"
  by (induction s rule: universal_newlines.induct) auto

lemma universal_newlines_id: "CR \<notin> set s \<Longrightarrow> universal_newlines s = s"
  by (induction s rule: universal_newlines.induct) auto

lemma concat_readlines [simp]: "concat (readlines s) = s"
  by (induction s) (auto split: list.splits)

lemma readlines_no_empty: "[] \<notin> set (readlines s)"
  by (induction s) (auto split: list.splits)

lemma readlines_eq_Nil [simp]: "readlines s = [] \<longleftrightarrow> s = []"
  by (cases s) (auto split: list.splits)

lemma terminated_Cons: "c \<noteq> LF \<Longrightarrow> terminated l \<Longrightarrow> terminated (c # l)"
  by (auto simp: terminated_def butlast.simps)

lemma terminated_LF [simp]: "terminated [LF]"
  by (simp add: terminated_def)

lemma readlines_terminated_append:
  "terminated l \<Longrightarrow> readlines (l @ rest) = l # readlines rest"
proof (induction l)
  case Nil
  then show ?case by (simp add: terminated_def)
next
  case (Cons c l)
  show ?case
  proof (cases "l = []")
    case True
    with Cons.prems show ?thesis by (simp add: terminated_def)
  next
    case False
    with Cons.prems have "c \<noteq> LF" "terminated l" by (auto simp: terminated_def)
    with Cons.IH show ?thesis by simp
  qed
qed

lemma readlines_concat_terminated:
  "\<forall>l\<in>set ls. terminated l \<Longrightarrow> readlines (concat ls) = ls"
  by (induction ls) (auto simp: readlines_terminated_append)

lemma readlines_unterminated:
  "l \<noteq> [] \<Longrightarrow> LF \<notin> set l \<Longrightarrow> readlines l = [l]"
proof (induction l)
  case Nil
  then show ?case by simp
next
  case (Cons c l)
  show ?case
  proof (cases "l = []")
    case True
    with Cons.prems show ?thesis by simp
  next
    case False
    with Cons have "readlines l = [l]" by simp
    with Cons.prems show ?thesis by auto
  qed
qed

lemma readlines_concat_last:
  "\<forall>l\<in>set ls. terminated l \<Longrightarrow> x \<noteq> [] \<Longrightarrow> LF \<notin> set x \<Longrightarrow> readlines (concat (ls @ [x])) = ls @ [x]"
  by (induction ls) (auto simp: readlines_terminated_append readlines_unterminated)

text \<open>All lines but the last are terminated; the last is terminated or has no \<open>LF\<close>.\<close>

lemma readlines_shape:
  "readlines s = ls @ [x] \<Longrightarrow> (\<forall>l\<in>set ls. terminated l) \<and> x \<noteq> [] \<and> (terminated x \<or> LF \<notin> set x)"
proof (induction s arbitrary: ls x)
  case Nil
  then show ?case by simp
next
  case (Cons c cs)
  show ?case
  proof (cases "c = LF")
    case True
    show ?thesis
    proof (cases ls)
      case Nil
      with True Cons.prems show ?thesis by auto
    next
      case (Cons l ls')
      with True Cons.prems have "l = [LF]" "readlines cs = ls' @ [x]" by auto
      with Cons.IH [of ls' x] Cons show ?thesis by auto
    qed
  next
    case False
    show ?thesis
    proof (cases "readlines cs")
      case Nil
      with False Cons.prems show ?thesis by auto
    next
      case (Cons l rest)
      note rl = this
      show ?thesis
      proof (cases ls)
        case Nil
        with rl False Cons.prems have x: "x = c # l" "rest = []" by auto
        with rl have "readlines cs = [] @ [l]" by simp
        from Cons.IH [OF this] have "l \<noteq> []" "terminated l \<or> LF \<notin> set l" by auto
        with x False Nil show ?thesis by (auto simp: terminated_Cons)
      next
        case (Cons l0 ls')
        with rl False Cons.prems have e: "l0 = c # l" "rest = ls' @ [x]" by auto
        with rl have "readlines cs = (l # ls') @ [x]" by simp
        from Cons.IH [OF this] have "terminated l" "\<forall>l\<in>set ls'. terminated l" "x \<noteq> []" "terminated x \<or> LF \<notin> set x"
          by auto
        with e False Cons show ?thesis by (auto simp: terminated_Cons)
      qed
    qed
  qed
qed

lemma last_concat_readlines:
  "s \<noteq> [] \<Longrightarrow> last s = last (last (readlines s))"
proof -
  assume s: "s \<noteq> []"
  then have ne: "readlines s \<noteq> []" by simp
  then obtain ls x where lx: "readlines s = ls @ [x]" by (metis rev_exhaust)
  from readlines_shape [OF lx] have "x \<noteq> []" by simp
  have "s = concat ls @ x" using lx concat_readlines [of s] by (metis concat.simps(1,2) concat_append append_Nil2)
  with \<open>x \<noteq> []\<close> lx show ?thesis by simp
qed

lemma terminated_no_unterminated: "terminated x \<Longrightarrow> LF \<in> set x"
  by (metis terminated_def last_in_set)

lemma readlines_all_terminated:
  assumes "s = [] \<or> last s = LF"
  shows "\<forall>l\<in>set (readlines s). terminated l"
proof (cases "s = []")
  case True
  then show ?thesis by simp
next
  case False
  then obtain ls x where lx: "readlines s = ls @ [x]" by (metis readlines_eq_Nil rev_exhaust)
  from readlines_shape [OF lx] have sh: "\<forall>l\<in>set ls. terminated l" "x \<noteq> []" "terminated x \<or> LF \<notin> set x" by auto
  from False assms last_concat_readlines [OF False] lx have "last x = LF" by simp
  with sh have "terminated x" by (metis last_in_set)
  with sh lx show ?thesis by auto
qed


section \<open>Lines written back by \<^verbatim>\<open>remove_duplicates\<close>\<close>

lemma read_lines_no_CR: "w \<in> set (read_lines_of stored) \<Longrightarrow> CR \<notin> set w"
proof
  assume w: "w \<in> set (read_lines_of stored)" and c: "CR \<in> set w"
  then have "CR \<in> set (concat (readlines (universal_newlines stored)))"
    unfolding read_lines_of_def by (auto simp del: concat_readlines)
  then show False by (simp add: universal_newlines_no_CR)
qed

lemma read_lines_of_written:
  assumes "set ws \<subseteq> set (read_lines_of stored)"
  shows "read_lines_of (concat ws) = readlines (concat ws)"
proof -
  have "CR \<notin> set (concat ws)" using assms read_lines_no_CR by auto
  then show ?thesis by (simp add: read_lines_of_def universal_newlines_id)
qed

lemma file_lines_upd [simp]: "file_lines (files(fname \<mapsto> stored)) fname = read_lines_of stored"
  by (simp add: file_lines_def)

lemma remove_duplicates_terminated:
  assumes t: "universal_newlines stored = [] \<or> last (universal_newlines stored) = LF"
    and i: "iterates_set iteration (read_lines_of stored)"
  shows "read_lines_of (concat (iteration (read_lines_of stored))) = iteration (read_lines_of stored)"
proof -
  let ?ws = "iteration (read_lines_of stored)"
  from i have sub: "set ?ws = set (read_lines_of stored)" by (simp add: iterates_set_def)
  from t have "\<forall>l\<in>set (read_lines_of stored). terminated l"
    unfolding read_lines_of_def by (rule readlines_all_terminated)
  with sub have "\<forall>l\<in>set ?ws. terminated l" by simp
  then have "readlines (concat ?ws) = ?ws" by (rule readlines_concat_terminated)
  with sub read_lines_of_written [of ?ws stored] show ?thesis by simp
qed

lemma concat_terminated_ends:
  "\<forall>l\<in>set ws. terminated l \<Longrightarrow> concat ws = [] \<or> last (concat ws) = LF"
proof (cases ws rule: rev_cases)
  case Nil
  then show ?thesis by simp
next
  case (snoc ws' w)
  assume "\<forall>l\<in>set ws. terminated l"
  with snoc have "w \<noteq> []" "last w = LF" by (auto simp: terminated_def)
  with snoc show ?thesis by simp
qed

lemma readlines_only_last_unterminated:
  assumes "x \<in> set (readlines s)" and "\<not> terminated x"
  shows "last (readlines s) = x \<and> (\<forall>l\<in>set (readlines s). l \<noteq> x \<longrightarrow> terminated l)"
proof -
  from assms(1) have "readlines s \<noteq> []" by auto
  then obtain ls y where ly: "readlines s = ls @ [y]" by (metis rev_exhaust)
  from readlines_shape [OF ly] have sh: "\<forall>l\<in>set ls. terminated l" by simp
  with assms ly have "x = y" by auto
  with sh ly show ?thesis by auto
qed

lemma count_list_distinct: "distinct ws \<Longrightarrow> x \<in> set ws \<Longrightarrow> count_list ws x = 1"
  by (induction ws) (auto simp: count_list_0_iff)


section \<open>Parsing a log line and the filtering loop\<close>

lemma hd_split_by: "hd (split_by P s) = takeWhile (\<lambda>c. \<not> P c) s"
  by (induction s) (auto split: list.splits)

lemma split_by_second:
  assumes "\<exists>c\<in>set s. P c"
  shows "split_by P s ! 1 = takeWhile (\<lambda>c. \<not> P c) (tl (dropWhile (\<lambda>c. \<not> P c) s))"
proof -
  let ?pre = "takeWhile (\<lambda>c. \<not> P c) s" and ?post = "dropWhile (\<lambda>c. \<not> P c) s"
  from assms have "?post \<noteq> []" by (auto simp: dropWhile_eq_Nil_conv)
  then obtain c rest where post: "?post = c # rest" by (cases ?post) auto
  then have pc: "P c" using hd_dropWhile [of "\<lambda>c. \<not> P c" s] by (metis list.sel(1) list.distinct(1))
  have "s = ?pre @ c # rest" using post by (metis takeWhile_dropWhile_id)
  moreover have "\<forall>c\<in>set ?pre. \<not> P c" by (auto dest: set_takeWhileD)
  ultimately have "split_by P s = ?pre # split_by P rest" using pc split_by_append by metis
  then have "split_by P s ! 1 = hd (split_by P rest)" by (simp add: hd_conv_nth)
  with post show ?thesis by (simp add: hd_split_by)
qed

lemma split_by_has_second: "2 \<le> length (split_by P s) \<longleftrightarrow> (\<exists>c\<in>set s. P c)"
  by (auto simp: length_split_by filter_empty_conv Suc_le_eq)

lemma request_param_is_request_field:
  "dquote \<in> set line \<Longrightarrow> split_on dquote line ! Suc 0 = request_field line"
  using split_by_second [of line "\<lambda>c. c = dquote"] by (simp add: split_on_def request_field_def)

lemma get_last_path_element_from_log_eq:
  "get_last_path_element_from_log line =
     (if no_quote_or_no_space line then Inl IndexError
      else Inr (last (split_on slash (split_on space (request_field line) ! 1))))"
proof (cases "dquote \<in> set line")
  case False
  then have "\<not> 2 \<le> length (split_on dquote line)"
    unfolding split_on_def split_by_has_second by simp
  with False show ?thesis
    by (simp add: get_last_path_element_from_log_def py_index_one no_quote_or_no_space_def)
next
  case True
  then have two: "2 \<le> length (split_on dquote line)"
    unfolding split_on_def split_by_has_second by simp
  show ?thesis
  proof (cases "space \<in> set (request_field line)")
    case False
    then have "\<not> 2 \<le> length (split_on space (request_field line))"
      unfolding split_on_def split_by_has_second by simp
    with False True two show ?thesis
      by (simp add: get_last_path_element_from_log_def py_index_one no_quote_or_no_space_def
          request_param_is_request_field)
  next
    case sp: True
    then have "2 \<le> length (split_on space (request_field line))"
      unfolding split_on_def split_by_has_second by simp
    moreover have "split_on slash (split_on space (request_field line) ! 1) \<noteq> []"
      by (simp add: split_on_def)
    ultimately show ?thesis using sp True two
      by (simp add: get_last_path_element_from_log_def py_index_one no_quote_or_no_space_def
          request_param_is_request_field Let_def py_index_last)
  qed
qed

lemma get_response_code_from_log_eq:
  "get_response_code_from_log line =
     Inr (if 2 \<le> length (split_on space line)
          then split_on space line ! (length (split_on space line) - 2)
          else last (split_on space line))"
  by (simp add: get_response_code_from_log_def Let_def py_index_before_last split_on_def)

lemma last_element_eq:
  "\<not> no_quote_or_no_space line \<Longrightarrow> get_last_path_element_from_log line = Inr (last_element line)"
  by (simp add: last_element_def get_last_path_element_from_log_eq)

lemma write_filtered_eq:
  "write_filtered rf ls out =
     (if \<exists>l\<in>set ls. no_quote_or_no_space l then Some IndexError else None,
      out @ concat (map (\<lambda>l. last_element l @ [LF])
              (filter (line_passes rf) (takeWhile (\<lambda>l. \<not> no_quote_or_no_space l) ls))))"
proof (induction ls arbitrary: out)
  case Nil
  then show ?case by simp
next
  case (Cons l ls)
  show ?case
  proof (cases "no_quote_or_no_space l")
    case True
    then show ?thesis by (simp add: get_last_path_element_from_log_eq)
  next
    case False
    then show ?thesis
      by (simp add: Cons.IH last_element_eq line_passes_def get_response_code_from_log_eq)
  qed
qed

lemma create_new_file_eq:
  "files fname = Some stored \<Longrightarrow>
   create_new_file_with_filtered_elements (init fname ext code) files =
     (if \<exists>l\<in>set (read_lines_of stored). no_quote_or_no_space l then Some IndexError else None,
      files(''gifs_'' @ fname \<mapsto>
        concat (map (\<lambda>l. last_element l @ [LF])
          (filter (line_passes (init fname ext code))
             (takeWhile (\<lambda>l. \<not> no_quote_or_no_space l) (read_lines_of stored))))))"
  by (simp add: create_new_file_with_filtered_elements_def write_filtered_eq init_def)

lemma takeWhile_all: "\<forall>l\<in>set ls. P l \<Longrightarrow> takeWhile P ls = ls"
  by (induction ls) auto


section \<open>Tokens separated by single spaces\<close>

lemma endswith_Nil [simp]: "endswith s []"
  by (simp add: endswith_def)

lemma is_space_space [simp]: "is_space space"
  by (simp add: is_space_def space_def)

lemma is_space_LF [simp]: "is_space LF"
  by (simp add: is_space_def LF_def)

lemma split_by_snoc_sep: "P c \<Longrightarrow> split_by P (s @ [c]) = split_by P s @ [[]]"
  by (induction s) (auto split: list.splits)

lemma split_by_join:
  "toks \<noteq> [] \<Longrightarrow> P space \<Longrightarrow> \<forall>t\<in>set toks. \<forall>c\<in>set t. \<not> P c \<Longrightarrow>
   split_by P (join_with_space toks) = toks"
proof (induction toks rule: join_with_space.induct)
  case 1
  then show ?case by simp
next
  case (2 t)
  then show ?case by (simp add: split_by_no_sep)
next
  case (3 t u ts)
  then have "split_by P (join_with_space (u # ts)) = u # ts" by simp
  moreover from 3 have "split_by P (t @ space # join_with_space (u # ts)) =
      t # split_by P (join_with_space (u # ts))"
    by (intro split_by_append) auto
  ultimately show ?case by simp
qed

lemma join_with_space_snoc:
  "toks \<noteq> [] \<Longrightarrow> join_with_space toks @ e = join_with_space (butlast toks @ [last toks @ e])"
  by (induction toks rule: join_with_space.induct) auto

lemma spec_tokens_join:
  assumes "toks \<noteq> []" and "\<forall>t\<in>set toks. t \<noteq> [] \<and> (\<forall>c\<in>set t. \<not> is_space c)"
  shows "spec_whitespace_tokens (join_with_space toks) = toks"
    and "spec_whitespace_tokens (join_with_space toks @ [LF]) = toks"
proof -
  from assms have sp: "split_by is_space (join_with_space toks) = toks"
    by (intro split_by_join) auto
  from assms(2) have ne: "filter (\<lambda>w. w \<noteq> []) toks = toks" by (simp add: filter_id_conv)
  from sp ne show "spec_whitespace_tokens (join_with_space toks) = toks"
    by (simp add: spec_whitespace_tokens_def)
  from sp ne show "spec_whitespace_tokens (join_with_space toks @ [LF]) = toks"
    by (simp add: spec_whitespace_tokens_def split_by_snoc_sep)
qed

lemma split_on_space_join:
  assumes "2 \<le> length toks" and "\<forall>t\<in>set toks. t \<noteq> [] \<and> (\<forall>c\<in>set t. \<not> is_space c)"
    and "ending = [] \<or> ending = [LF]"
  shows "length (split_on space (join_with_space toks @ ending)) = length toks"
    and "split_on space (join_with_space toks @ ending) ! (length toks - 2) =
           toks ! (length toks - 2)"
proof -
  from assms(1) have ne: "toks \<noteq> []" by auto
  let ?toks' = "butlast toks @ [last toks @ ending]"
  have nospace: "\<forall>t\<in>set toks. \<forall>c\<in>set t. c \<noteq> space"
    using assms(2) is_space_space by blast
  have "LF \<noteq> space" by (simp add: LF_def space_def)
  with assms(3) have "\<forall>c\<in>set ending. c \<noteq> space" by auto
  moreover have "last toks \<in> set toks" using ne by simp
  ultimately have "\<forall>c\<in>set (last toks @ ending). c \<noteq> space" using nospace by auto
  moreover have "\<forall>t\<in>set (butlast toks). \<forall>c\<in>set t. c \<noteq> space"
    using nospace by (meson in_set_butlastD)
  ultimately have "\<forall>t\<in>set ?toks'. \<forall>c\<in>set t. \<not> (c = space)" by auto
  then have "split_by (\<lambda>c. c = space) (join_with_space ?toks') = ?toks'"
    by (intro split_by_join) auto
  then have sp: "split_on space (join_with_space toks @ ending) = ?toks'"
    by (simp add: split_on_def join_with_space_snoc [OF ne])
  show "length (split_on space (join_with_space toks @ ending)) = length toks"
    using ne by (simp add: sp)
  have "length toks - 2 < length (butlast toks)" using assms(1) by simp
  then have "?toks' ! (length toks - 2) = butlast toks ! (length toks - 2)"
    by (simp add: nth_append)
  also have "\<dots> = toks ! (length toks - 2)" using assms(1) by (simp add: nth_butlast)
  finally show "split_on space (join_with_space toks @ ending) ! (length toks - 2) =
           toks ! (length toks - 2)" by (simp add: sp)
qed

lemma plain_token_no_dquote: "plain_token t \<Longrightarrow> dquote \<notin> set t"
  by (auto simp: plain_token_def)

lemma plain_token_no_space: "plain_token t \<Longrightarrow> \<forall>c\<in>set t. \<not> is_space c"
  by (auto simp: plain_token_def)

lemma space_neq_dquote [simp]: "space \<noteq> dquote"
  by (simp add: space_def dquote_def)


section \<open>The extension filter\<close>

text \<open>
  C1 (amended). The extension filter lower-cases the path element and compares it with
  the filter string as it was configured: it accepts an element iff the lower-cased
  element ends with the filter string. For a filter that is already lower-case this is
  the comparison of the lower-cased element with the lower-cased filter; a filter with
  an upper-case letter accepts no element at all.
\<close>

theorem extension_filter_lowers_element_only:
  "(last_path_element_passes_extension_filter (init fname ext code) el \<longleftrightarrow>
      (\<exists>p. lower el = p @ ext)) \<and>
   (lower ext = ext \<longrightarrow>
      (last_path_element_passes_extension_filter (init fname ext code) el \<longleftrightarrow>
         endswith (lower el) (lower ext))) \<and>
   (lower ext \<noteq> ext \<longrightarrow> \<not> last_path_element_passes_extension_filter (init fname ext code) el)"
  using endswith_lower_fixed [of el ext]
  by (auto simp: last_path_element_passes_extension_filter_def init_def endswith_iff)

text \<open>
  With the filter \<^verbatim>\<open>.gif\<close> of the tests, \<^verbatim>\<open>funny_picture.GIF\<close> passes and
  \<^verbatim>\<open>/funny/directory/\<close> does not; with the filter \<^verbatim>\<open>.GIF\<close> the same picture fails.
\<close>

theorem extension_filter_lowers_element_only_witness:
  "lower ''.gif'' = ''.gif'' \<and> lower ''.GIF'' \<noteq> ''.GIF'' \<and>
   last_path_element_passes_extension_filter (init ''log.txt'' ''.gif'' ''200'') ''funny_picture.GIF'' \<and>
   \<not> last_path_element_passes_extension_filter (init ''log.txt'' ''.gif'' ''200'') ''/funny/directory/'' \<and>
   \<not> last_path_element_passes_extension_filter (init ''log.txt'' ''.GIF'' ''200'') ''funny_picture.GIF''"
proof -
  have a: "lower ''.gif'' = ''.gif''" by code_simp
  have b: "lower ''.GIF'' \<noteq> ''.GIF''" by code_simp
  have c: "endswith (lower ''funny_picture.GIF'') (lower ''.gif'')" by code_simp
  have d: "\<not> endswith (lower ''/funny/directory/'') (lower ''.gif'')" by code_simp
  from a b c d
    extension_filter_lowers_element_only [of "''log.txt''" "''.gif''" "''200''" "''funny_picture.GIF''"]
    extension_filter_lowers_element_only [of "''log.txt''" "''.gif''" "''200''" "''/funny/directory/''"]
    extension_filter_lowers_element_only [of "''log.txt''" "''.GIF''" "''200''" "''funny_picture.GIF''"]
  show ?thesis by blast
qed

text \<open>
  The lower-cased element \<^verbatim>\<open>funny_picture.gif\<close> ends with the lower-cased filter
  \<^verbatim>\<open>.GIF\<close>, and the filter rejects it: the filter string is not lower-cased.
\<close>

theorem extension_filter_upper_case_filter_counterexample:
  "endswith (lower ''funny_picture.gif'') (lower ''.GIF'') \<and>
   \<not> last_path_element_passes_extension_filter (init ''log.txt'' ''.GIF'' ''200'') ''funny_picture.gif''"
  by code_simp


section \<open>Removing duplicate lines\<close>

text \<open>
  C3 (amended). For a file whose text is empty or ends with a newline, whatever the order
  in which the set of lines is visited: \<^verbatim>\<open>remove_duplicates\<close> succeeds, and the lines
  of the file afterwards are the distinct lines of the file before, each exactly once,
  so that their number is the number of distinct lines.
\<close>

theorem remove_duplicates_keeps_distinct_lines:
  assumes "files fname = Some stored"
    and "universal_newlines stored = [] \<or> last (universal_newlines stored) = LF"
    and "iterates_set iteration (file_lines files fname)"
  shows "fst (remove_duplicates iteration fname files) = None \<and>
         distinct (file_lines (snd (remove_duplicates iteration fname files)) fname) \<and>
         set (file_lines (snd (remove_duplicates iteration fname files)) fname) =
           set (file_lines files fname) \<and>
         length (file_lines (snd (remove_duplicates iteration fname files)) fname) =
           card (set (file_lines files fname))"
proof -
  let ?ws = "iteration (read_lines_of stored)"
  have before: "file_lines files fname = read_lines_of stored"
    using assms(1) by (simp add: file_lines_def)
  have rd: "remove_duplicates iteration fname files = (None, files(fname \<mapsto> concat ?ws))"
    using assms(1) by (simp add: remove_duplicates_def filtered_lines_def)
  from assms(3) before have i: "iterates_set iteration (read_lines_of stored)" by simp
  from remove_duplicates_terminated [OF assms(2) i]
  have after: "file_lines (snd (remove_duplicates iteration fname files)) fname = ?ws"
    by (simp add: rd)
  from i have d: "distinct ?ws" and s: "set ?ws = set (read_lines_of stored)"
    by (simp_all add: iterates_set_def)
  from d have "length ?ws = card (set ?ws)" by (simp add: distinct_card)
  with after d s show ?thesis by (simp add: rd before)
qed

text \<open>
  The lines A, A, B, C, B become the set of A, B and C, three lines.
\<close>

theorem remove_duplicates_keeps_distinct_lines_witness:
  "file_lines (single_file ''dup.txt'' (''A'' @ [LF] @ ''A'' @ [LF] @ ''B'' @ [LF] @ ''C'' @ [LF] @ ''B'' @ [LF])) ''dup.txt'' =
     [''A'' @ [LF], ''A'' @ [LF], ''B'' @ [LF], ''C'' @ [LF], ''B'' @ [LF]] \<and>
   set (file_lines (snd (remove_duplicates reversed_iteration ''dup.txt''
          (single_file ''dup.txt'' (''A'' @ [LF] @ ''A'' @ [LF] @ ''B'' @ [LF] @ ''C'' @ [LF] @ ''B'' @ [LF])))) ''dup.txt'') =
     {''A'' @ [LF], ''B'' @ [LF], ''C'' @ [LF]} \<and>
   length (file_lines (snd (remove_duplicates reversed_iteration ''dup.txt''
          (single_file ''dup.txt'' (''A'' @ [LF] @ ''A'' @ [LF] @ ''B'' @ [LF] @ ''C'' @ [LF] @ ''B'' @ [LF])))) ''dup.txt'') = 3"
proof -
  let ?stored = "''A'' @ [LF] @ ''A'' @ [LF] @ ''B'' @ [LF] @ ''C'' @ [LF] @ ''B'' @ [LF]"
  let ?files = "single_file ''dup.txt'' ?stored"
  have ls: "file_lines ?files ''dup.txt'' = [''A'' @ [LF], ''A'' @ [LF], ''B'' @ [LF], ''C'' @ [LF], ''B'' @ [LF]]"
    by (simp add: file_lines_def single_file_def read_lines_of_def LF_def CR_def)
  have f: "?files ''dup.txt'' = Some ?stored" by (simp add: single_file_def)
  have t: "universal_newlines ?stored = [] \<or> last (universal_newlines ?stored) = LF"
    by (simp add: LF_def CR_def)
  have i: "iterates_set reversed_iteration (file_lines ?files ''dup.txt'')"
    unfolding ls by (auto simp: iterates_set_def reversed_iteration_def LF_def)
  have c: "card (set (file_lines ?files ''dup.txt'')) = 3"
    unfolding ls card_set by (simp add: LF_def)
  have s: "set (file_lines ?files ''dup.txt'') = {''A'' @ [LF], ''B'' @ [LF], ''C'' @ [LF]}"
    unfolding ls by auto
  from remove_duplicates_keeps_distinct_lines [OF f t i] ls c s show ?thesis by simp
qed

text \<open>
  A file whose last line has no newline: the lines are A and B, the set is visited B
  first, and the file afterwards holds the single line BA, which is not a line of the
  input, while neither A nor B is left.
\<close>

theorem remove_duplicates_unterminated_counterexample:
  "iterates_set reversed_iteration (file_lines (single_file ''dup.txt'' (''A'' @ [LF] @ ''B'')) ''dup.txt'') \<and>
   file_lines (single_file ''dup.txt'' (''A'' @ [LF] @ ''B'')) ''dup.txt'' = [''A'' @ [LF], ''B''] \<and>
   file_lines (snd (remove_duplicates reversed_iteration ''dup.txt''
      (single_file ''dup.txt'' (''A'' @ [LF] @ ''B'')))) ''dup.txt'' = [''BA'' @ [LF]] \<and>
   set (file_lines (snd (remove_duplicates reversed_iteration ''dup.txt''
      (single_file ''dup.txt'' (''A'' @ [LF] @ ''B'')))) ''dup.txt'') \<noteq>
   set (file_lines (single_file ''dup.txt'' (''A'' @ [LF] @ ''B'')) ''dup.txt'')"
  by (auto simp: iterates_set_def reversed_iteration_def file_lines_def single_file_def
      read_lines_of_def remove_duplicates_def filtered_lines_def LF_def CR_def)

text \<open>
  C6 (amended). For a file whose text is empty or ends with a newline, a second run of
  \<^verbatim>\<open>remove_duplicates\<close> succeeds and leaves the set of lines of the first run, whatever
  the two orders in which the sets are visited.
\<close>

theorem remove_duplicates_twice:
  assumes "files fname = Some stored"
    and "universal_newlines stored = [] \<or> last (universal_newlines stored) = LF"
    and "iterates_set first (file_lines files fname)"
    and "iterates_set second (file_lines (snd (remove_duplicates first fname files)) fname)"
  shows "fst (remove_duplicates second fname (snd (remove_duplicates first fname files))) = None \<and>
         set (file_lines (snd (remove_duplicates second fname
                (snd (remove_duplicates first fname files)))) fname) =
         set (file_lines (snd (remove_duplicates first fname files)) fname)"
proof -
  let ?ws = "first (read_lines_of stored)"
  let ?vs = "second (read_lines_of (concat ?ws))"
  have before: "file_lines files fname = read_lines_of stored"
    using assms(1) by (simp add: file_lines_def)
  have rd1: "remove_duplicates first fname files = (None, files(fname \<mapsto> concat ?ws))"
    using assms(1) by (simp add: remove_duplicates_def filtered_lines_def)
  have rd2: "remove_duplicates second fname (files(fname \<mapsto> concat ?ws)) =
      (None, files(fname \<mapsto> concat ?vs))"
    by (simp add: remove_duplicates_def filtered_lines_def)
  from assms(3) before have i1: "iterates_set first (read_lines_of stored)" by simp
  have once: "read_lines_of (concat ?ws) = ?ws"
    by (rule remove_duplicates_terminated [OF assms(2) i1])
  from assms(4) have i2: "iterates_set second (read_lines_of (concat ?ws))" by (simp add: rd1)
  from assms(2) have "\<forall>l\<in>set (read_lines_of stored). terminated l"
    unfolding read_lines_of_def by (rule readlines_all_terminated)
  with i1 have tw: "\<forall>l\<in>set ?ws. terminated l" by (simp add: iterates_set_def)
  have "set ?ws \<subseteq> set (read_lines_of stored)" using i1 by (simp add: iterates_set_def)
  then have "CR \<notin> set (concat ?ws)" using read_lines_no_CR by auto
  then have "universal_newlines (concat ?ws) = concat ?ws" by (rule universal_newlines_id)
  with concat_terminated_ends [OF tw]
  have t2: "universal_newlines (concat ?ws) = [] \<or> last (universal_newlines (concat ?ws)) = LF"
    by simp
  have twice: "read_lines_of (concat ?vs) = ?vs"
    by (rule remove_duplicates_terminated [OF t2 i2])
  from i2 have "set ?vs = set (read_lines_of (concat ?ws))" by (simp add: iterates_set_def)
  with twice show ?thesis by (simp add: rd1 rd2)
qed

text \<open>
  The lines A, B, A: the first run leaves B and A, the second run visits them in the
  other order and leaves the same set.
\<close>

theorem remove_duplicates_twice_witness:
  "set (file_lines (snd (remove_duplicates reversed_iteration ''dup.txt''
          (snd (remove_duplicates last_seen_iteration ''dup.txt''
             (single_file ''dup.txt'' (''A'' @ [LF] @ ''B'' @ [LF] @ ''A'' @ [LF])))))) ''dup.txt'') =
   set (file_lines (snd (remove_duplicates last_seen_iteration ''dup.txt''
          (single_file ''dup.txt'' (''A'' @ [LF] @ ''B'' @ [LF] @ ''A'' @ [LF])))) ''dup.txt'') \<and>
   file_lines (snd (remove_duplicates last_seen_iteration ''dup.txt''
          (single_file ''dup.txt'' (''A'' @ [LF] @ ''B'' @ [LF] @ ''A'' @ [LF])))) ''dup.txt'' =
     [''B'' @ [LF], ''A'' @ [LF]]"
proof -
  let ?stored = "''A'' @ [LF] @ ''B'' @ [LF] @ ''A'' @ [LF]"
  let ?files = "single_file ''dup.txt'' ?stored"
  have f: "?files ''dup.txt'' = Some ?stored" by (simp add: single_file_def)
  have t: "universal_newlines ?stored = [] \<or> last (universal_newlines ?stored) = LF"
    by (simp add: LF_def CR_def)
  have i1: "iterates_set last_seen_iteration (file_lines ?files ''dup.txt'')"
    by (simp add: iterates_set_def last_seen_iteration_def)
  have i2: "iterates_set reversed_iteration
      (file_lines (snd (remove_duplicates last_seen_iteration ''dup.txt'' ?files)) ''dup.txt'')"
    by (simp add: iterates_set_def reversed_iteration_def)
  have once: "file_lines (snd (remove_duplicates last_seen_iteration ''dup.txt'' ?files)) ''dup.txt'' =
     [''B'' @ [LF], ''A'' @ [LF]]"
    by (simp add: last_seen_iteration_def file_lines_def single_file_def
      read_lines_of_def remove_duplicates_def filtered_lines_def LF_def CR_def)
  from remove_duplicates_twice [OF f t i1 i2] once show ?thesis by simp
qed

text \<open>
  The text of A with a newline and B without: a first run that visits A first leaves the
  file as it was, and a second run that visits B first leaves the single line BA.
\<close>

theorem remove_duplicates_twice_unterminated_counterexample:
  "iterates_set last_seen_iteration (file_lines (single_file ''dup.txt'' (''A'' @ [LF] @ ''B'')) ''dup.txt'') \<and>
   iterates_set reversed_iteration
     (file_lines (snd (remove_duplicates last_seen_iteration ''dup.txt''
        (single_file ''dup.txt'' (''A'' @ [LF] @ ''B'')))) ''dup.txt'') \<and>
   file_lines (snd (remove_duplicates last_seen_iteration ''dup.txt''
        (single_file ''dup.txt'' (''A'' @ [LF] @ ''B'')))) ''dup.txt'' = [''A'' @ [LF], ''B''] \<and>
   file_lines (snd (remove_duplicates reversed_iteration ''dup.txt''
        (snd (remove_duplicates last_seen_iteration ''dup.txt''
           (single_file ''dup.txt'' (''A'' @ [LF] @ ''B'')))))) ''dup.txt'' = [''BA'' @ [LF]] \<and>
   set (file_lines (snd (remove_duplicates reversed_iteration ''dup.txt''
        (snd (remove_duplicates last_seen_iteration ''dup.txt''
           (single_file ''dup.txt'' (''A'' @ [LF] @ ''B'')))))) ''dup.txt'') \<noteq>
   set (file_lines (snd (remove_duplicates last_seen_iteration ''dup.txt''
        (single_file ''dup.txt'' (''A'' @ [LF] @ ''B'')))) ''dup.txt'')"
  by (auto simp: iterates_set_def reversed_iteration_def last_seen_iteration_def file_lines_def
      single_file_def read_lines_of_def remove_duplicates_def filtered_lines_def LF_def CR_def)

text \<open>
  C8 (amended). When a file holds a line \<open>x\<close> without a newline and the line \<open>x\<close> with
  a newline, the set keeps both as two values and each is written exactly once. They are
  two lines of the file afterwards exactly when \<open>x\<close>, the value without a newline, is
  written last.
\<close>

theorem unterminated_line_is_kept_apart_in_the_set:
  assumes "files fname = Some stored"
    and "x \<in> set (file_lines files fname)"
    and "x @ [LF] \<in> set (file_lines files fname)"
    and "iterates_set iteration (file_lines files fname)"
  shows "count_list (filtered_lines iteration stored) x = 1 \<and>
         count_list (filtered_lines iteration stored) (x @ [LF]) = 1 \<and>
         snd (remove_duplicates iteration fname files) fname =
           Some (concat (filtered_lines iteration stored)) \<and>
         (x \<in> set (file_lines (snd (remove_duplicates iteration fname files)) fname) \<and>
          x @ [LF] \<in> set (file_lines (snd (remove_duplicates iteration fname files)) fname)
            \<longleftrightarrow> last (filtered_lines iteration stored) = x)"
proof -
  let ?ls = "read_lines_of stored"
  let ?ws = "iteration ?ls"
  have before: "file_lines files fname = ?ls"
    using assms(1) by (simp add: file_lines_def)
  have rd: "remove_duplicates iteration fname files = (None, files(fname \<mapsto> concat ?ws))"
    using assms(1) by (simp add: remove_duplicates_def filtered_lines_def)
  from assms(4) before have d: "distinct ?ws" and s: "set ?ws = set ?ls"
    by (simp_all add: iterates_set_def)
  from assms(2,3) before have x: "x \<in> set ?ls" and xn: "x @ [LF] \<in> set ?ls" by simp_all
  have after: "read_lines_of (concat ?ws) = readlines (concat ?ws)"
    using s read_lines_of_written [of ?ws stored] by simp
  from xn obtain ls y where ly: "?ls = ls @ [y]"
    by (metis empty_iff list.set(1) rev_exhaust)
  from ly have ly': "readlines (universal_newlines stored) = ls @ [y]" by (simp add: read_lines_of_def)
  from readlines_shape [OF ly'] have sh: "\<forall>l\<in>set ls. terminated l" "terminated y \<or> LF \<notin> set y" by auto
  from xn ly sh have "terminated (x @ [LF])" by auto
  then have noLF: "LF \<notin> set x" by (simp add: terminated_def)
  from x have xne: "x \<noteq> []" using readlines_no_empty [of "universal_newlines stored"]
    by (auto simp: read_lines_of_def)
  from noLF have nt: "\<not> terminated x" using terminated_no_unterminated by blast
  from readlines_only_last_unterminated [of x "universal_newlines stored"] x nt
  have others: "\<forall>l\<in>set ?ls. l \<noteq> x \<longrightarrow> terminated l" by (simp add: read_lines_of_def)
  have counts: "count_list ?ws x = 1" "count_list ?ws (x @ [LF]) = 1"
    using d s x xn by (simp_all add: count_list_distinct)
  have iff: "(x \<in> set (readlines (concat ?ws)) \<and> x @ [LF] \<in> set (readlines (concat ?ws)))
      \<longleftrightarrow> last ?ws = x"
  proof
    assume l: "last ?ws = x"
    from x s have "?ws \<noteq> []" by auto
    with l obtain ws' where ws: "?ws = ws' @ [x]" by (metis append_butlast_last_id)
    with d have nx: "x \<notin> set ws'" by simp
    have "set ws' \<subseteq> set ?ws" by (simp add: ws subset_insertI)
    then have sub: "set ws' \<subseteq> set ?ls" by (simp only: s)
    have "\<forall>l\<in>set ws'. terminated l"
    proof
      fix l assume l: "l \<in> set ws'"
      with nx have "l \<noteq> x" by metis
      moreover from l sub have "l \<in> set ?ls" by (rule subsetD [rotated])
      ultimately show "terminated l" using others by simp
    qed
    from readlines_concat_last [OF this xne noLF] ws have "readlines (concat ?ws) = ?ws" by simp
    with x xn s show "x \<in> set (readlines (concat ?ws)) \<and> x @ [LF] \<in> set (readlines (concat ?ws))"
      by simp
  next
    assume "x \<in> set (readlines (concat ?ws)) \<and> x @ [LF] \<in> set (readlines (concat ?ws))"
    then have xin: "x \<in> set (readlines (concat ?ws))" by simp
    have cne: "concat ?ws \<noteq> []"
    proof
      assume "concat ?ws = []"
      then have "readlines (concat ?ws) = []" by (simp only: readlines.simps)
      with xin show False by simp
    qed
    from readlines_only_last_unterminated [OF xin nt] have "last (readlines (concat ?ws)) = x" by simp
    with last_concat_readlines [OF cne] have lc: "last (concat ?ws) = last x" by simp
    from x s have "?ws \<noteq> []" by auto
    then obtain ws' w where ws: "?ws = ws' @ [w]" by (metis rev_exhaust)
    have "w \<in> set ?ws" by (simp add: ws)
    then have lin: "w \<in> set ?ls" by (simp only: s)
    then have lne: "w \<noteq> []" using readlines_no_empty [of "universal_newlines stored"]
      by (auto simp: read_lines_of_def)
    from ws lne have "last (concat ?ws) = last w" by simp
    with lc have eq: "last w = last x" by simp
    have "w = x"
    proof (rule ccontr)
      assume "w \<noteq> x"
      with others lin have "terminated w" by simp
      then have "last w = LF" by (simp add: terminated_def)
      with eq have "last x = LF" by simp
      with xne noLF show False by (metis last_in_set)
    qed
    with ws show "last ?ws = x" by simp
  qed
  from counts iff show ?thesis by (simp add: after filtered_lines_def rd)
qed

text \<open>
  The text of X with a newline and X without, visited in this order: both are lines of
  the file afterwards.
\<close>

theorem unterminated_line_is_kept_apart_in_the_set_witness:
  "''X'' \<in> set (file_lines (single_file ''dup.txt'' (''X'' @ [LF] @ ''X'')) ''dup.txt'') \<and>
   ''X'' @ [LF] \<in> set (file_lines (single_file ''dup.txt'' (''X'' @ [LF] @ ''X'')) ''dup.txt'') \<and>
   iterates_set last_seen_iteration
     (file_lines (single_file ''dup.txt'' (''X'' @ [LF] @ ''X'')) ''dup.txt'') \<and>
   last (filtered_lines last_seen_iteration (''X'' @ [LF] @ ''X'')) = ''X'' \<and>
   count_list (filtered_lines last_seen_iteration (''X'' @ [LF] @ ''X'')) ''X'' = 1 \<and>
   count_list (filtered_lines last_seen_iteration (''X'' @ [LF] @ ''X'')) (''X'' @ [LF]) = 1 \<and>
   ''X'' \<in> set (file_lines (snd (remove_duplicates last_seen_iteration ''dup.txt''
       (single_file ''dup.txt'' (''X'' @ [LF] @ ''X'')))) ''dup.txt'') \<and>
   ''X'' @ [LF] \<in> set (file_lines (snd (remove_duplicates last_seen_iteration ''dup.txt''
       (single_file ''dup.txt'' (''X'' @ [LF] @ ''X'')))) ''dup.txt'')"
proof -
  let ?stored = "''X'' @ [LF] @ ''X''"
  let ?files = "single_file ''dup.txt'' ?stored"
  have f: "?files ''dup.txt'' = Some ?stored" by (simp add: single_file_def)
  have ls: "file_lines ?files ''dup.txt'' = [''X'' @ [LF], ''X'']"
    by (simp add: file_lines_def single_file_def read_lines_of_def LF_def CR_def)
  have x: "''X'' \<in> set (file_lines ?files ''dup.txt'')" unfolding ls by simp
  have xn: "''X'' @ [LF] \<in> set (file_lines ?files ''dup.txt'')" unfolding ls by simp
  have i: "iterates_set last_seen_iteration (file_lines ?files ''dup.txt'')"
    unfolding ls by (simp add: iterates_set_def last_seen_iteration_def LF_def)
  have l: "last (filtered_lines last_seen_iteration ?stored) = ''X''"
    by (simp add: filtered_lines_def last_seen_iteration_def read_lines_of_def LF_def CR_def)
  from unterminated_line_is_kept_apart_in_the_set [OF f x xn i] x xn i l show ?thesis by simp
qed

text \<open>
  The same text visited in the other order: X without a newline is written first and
  runs into the next value, and the file afterwards holds the single line XX.
\<close>

theorem unterminated_line_written_first_counterexample:
  "iterates_set reversed_iteration
     (file_lines (single_file ''dup.txt'' (''X'' @ [LF] @ ''X'')) ''dup.txt'') \<and>
   file_lines (single_file ''dup.txt'' (''X'' @ [LF] @ ''X'')) ''dup.txt'' = [''X'' @ [LF], ''X''] \<and>
   file_lines (snd (remove_duplicates reversed_iteration ''dup.txt''
       (single_file ''dup.txt'' (''X'' @ [LF] @ ''X'')))) ''dup.txt'' = [''XX'' @ [LF]] \<and>
   ''X'' \<notin> set (file_lines (snd (remove_duplicates reversed_iteration ''dup.txt''
       (single_file ''dup.txt'' (''X'' @ [LF] @ ''X'')))) ''dup.txt'') \<and>
   ''X'' @ [LF] \<notin> set (file_lines (snd (remove_duplicates reversed_iteration ''dup.txt''
       (single_file ''dup.txt'' (''X'' @ [LF] @ ''X'')))) ''dup.txt'')"
  by (auto simp: iterates_set_def reversed_iteration_def file_lines_def
      single_file_def read_lines_of_def remove_duplicates_def filtered_lines_def LF_def CR_def)


section \<open>The filtering run\<close>

text \<open>
  C2. For a source file in which every line has a double quote and a space in its
  request field (so that extracting the path element does not raise), the run succeeds
  and the output file, named by putting \<^verbatim>\<open>gifs_\<close> before the source file name,
  holds the path elements of the lines that pass both filters, each followed by a
  newline, in the order of the lines and with repetitions kept.
\<close>

theorem filtering_writes_passing_elements_in_order:
  assumes "files fname = Some stored"
    and "\<forall>l\<in>set (file_lines files fname). \<not> no_quote_or_no_space l"
  shows "create_new_file_with_filtered_elements (init fname ext code) files =
           (None, files(''gifs_'' @ fname \<mapsto>
              concat (map (\<lambda>l. last_element l @ [LF])
                (filter (line_passes (init fname ext code)) (file_lines files fname))))) \<and>
         filtered_elements_filename (init fname ext code) = ''gifs_'' @ fname"
proof -
  have ls: "file_lines files fname = read_lines_of stored"
    using assms(1) by (simp add: file_lines_def)
  with assms(2) have wf: "\<forall>l\<in>set (read_lines_of stored). \<not> no_quote_or_no_space l" by simp
  then have tw: "takeWhile (\<lambda>l. \<not> no_quote_or_no_space l) (read_lines_of stored) = read_lines_of stored"
    by (rule takeWhile_all)
  from wf have "create_new_file_with_filtered_elements (init fname ext code) files =
           (None, files(''gifs_'' @ fname \<mapsto>
              concat (map (\<lambda>l. last_element l @ [LF])
                (filter (line_passes (init fname ext code)) (file_lines files fname)))))"
    by (simp add: create_new_file_eq [of files fname stored ext code, OF assms(1)] ls tw)
  moreover have "filtered_elements_filename (init fname ext code) = ''gifs_'' @ fname"
    by (simp add: init_def)
  ultimately show ?thesis by (rule conjI)
qed

text \<open>
  Five lines of the sample log: a directory, a status 304, the same picture twice and
  one more picture. The picture that occurs twice is written twice.
\<close>

theorem filtering_writes_passing_elements_in_order_witness:
  "filter no_quote_or_no_space (file_lines (single_file ''log.txt''
        (log_line ''/shuttle/countdown/'' ''200'' @
         log_line ''/images/NASA-logosmall.gif'' ''304'' @
         log_line ''/shuttle/countdown/video/livevideo.GIF'' ''200'' @
         log_line ''/shuttle/countdown/video/livevideo.GIF'' ''200'' @
         log_line ''/images/KSC-logosmall.gif'' ''200'')) ''log.txt'') = [] \<and>
   fst (create_new_file_with_filtered_elements (init ''log.txt'' ''.gif'' ''200'')
      (single_file ''log.txt''
        (log_line ''/shuttle/countdown/'' ''200'' @
         log_line ''/images/NASA-logosmall.gif'' ''304'' @
         log_line ''/shuttle/countdown/video/livevideo.GIF'' ''200'' @
         log_line ''/shuttle/countdown/video/livevideo.GIF'' ''200'' @
         log_line ''/images/KSC-logosmall.gif'' ''200''))) = None \<and>
   snd (create_new_file_with_filtered_elements (init ''log.txt'' ''.gif'' ''200'')
      (single_file ''log.txt''
        (log_line ''/shuttle/countdown/'' ''200'' @
         log_line ''/images/NASA-logosmall.gif'' ''304'' @
         log_line ''/shuttle/countdown/video/livevideo.GIF'' ''200'' @
         log_line ''/shuttle/countdown/video/livevideo.GIF'' ''200'' @
         log_line ''/images/KSC-logosmall.gif'' ''200''))) ''gifs_log.txt'' =
     Some (''livevideo.GIF'' @ [LF] @ ''livevideo.GIF'' @ [LF] @ ''KSC-logosmall.gif'' @ [LF])"
proof -
  let ?stored = "log_line ''/shuttle/countdown/'' ''200'' @
         log_line ''/images/NASA-logosmall.gif'' ''304'' @
         log_line ''/shuttle/countdown/video/livevideo.GIF'' ''200'' @
         log_line ''/shuttle/countdown/video/livevideo.GIF'' ''200'' @
         log_line ''/images/KSC-logosmall.gif'' ''200''"
  let ?files = "single_file ''log.txt'' ?stored"
  have f: "?files ''log.txt'' = Some ?stored" by (simp add: single_file_def)
  have wf: "\<forall>l\<in>set (file_lines ?files ''log.txt''). \<not> no_quote_or_no_space l" by code_simp
  have ev: "concat (map (\<lambda>l. last_element l @ [LF])
      (filter (line_passes (init ''log.txt'' ''.gif'' ''200'')) (file_lines ?files ''log.txt''))) =
    ''livevideo.GIF'' @ [LF] @ ''livevideo.GIF'' @ [LF] @ ''KSC-logosmall.gif'' @ [LF]"
    by code_simp
  from wf have nm: "filter no_quote_or_no_space (file_lines ?files ''log.txt'') = []"
    by (simp only: filter_empty_conv)
  from filtering_writes_passing_elements_in_order
    [of ?files "''log.txt''" ?stored "''.gif''" "''200''", OF f wf] nm ev
  show ?thesis by simp
qed

text \<open>
  C7 (amended). Extracting the path element raises \<^verbatim>\<open>IndexError\<close> exactly on a
  line that has no double quote or whose request field has no space character. A source
  file with such a line makes the run end with that exception: the output file holds
  what the lines before the first such line produced, and nothing from the lines after
  it. (A request field with a space but no path, such as \<^verbatim>\<open>GET \<close>, is not such
  a line.)
\<close>

theorem line_without_quote_or_space_aborts_run:
  assumes "files fname = Some stored"
    and "\<exists>l\<in>set (file_lines files fname). no_quote_or_no_space l"
  shows "(get_last_path_element_from_log line = Inl IndexError \<longleftrightarrow> no_quote_or_no_space line) \<and>
         ((\<exists>el. get_last_path_element_from_log line = Inr el) \<longleftrightarrow> \<not> no_quote_or_no_space line) \<and>
         fst (create_new_file_with_filtered_elements (init fname ext code) files) =
           Some IndexError \<and>
         snd (create_new_file_with_filtered_elements (init fname ext code) files)
             (''gifs_'' @ fname) =
           Some (concat (map (\<lambda>l. last_element l @ [LF])
             (filter (line_passes (init fname ext code))
                (takeWhile (\<lambda>l. \<not> no_quote_or_no_space l) (file_lines files fname)))))"
proof -
  have ls: "file_lines files fname = read_lines_of stored"
    using assms(1) by (simp add: file_lines_def)
  with assms(2) have bad: "\<exists>l\<in>set (read_lines_of stored). no_quote_or_no_space l" by simp
  have "get_last_path_element_from_log line = Inl IndexError \<longleftrightarrow> no_quote_or_no_space line"
    by (simp add: get_last_path_element_from_log_eq)
  moreover have "(\<exists>el. get_last_path_element_from_log line = Inr el) \<longleftrightarrow> \<not> no_quote_or_no_space line"
    by (simp add: get_last_path_element_from_log_eq)
  moreover from bad have
    "fst (create_new_file_with_filtered_elements (init fname ext code) files) = Some IndexError"
    by (simp add: create_new_file_eq [of files fname stored ext code, OF assms(1)])
  moreover have "snd (create_new_file_with_filtered_elements (init fname ext code) files)
             (''gifs_'' @ fname) =
           Some (concat (map (\<lambda>l. last_element l @ [LF])
             (filter (line_passes (init fname ext code))
                (takeWhile (\<lambda>l. \<not> no_quote_or_no_space l) (file_lines files fname)))))"
    by (simp add: create_new_file_eq [of files fname stored ext code, OF assms(1)] ls)
  ultimately show ?thesis by blast
qed

text \<open>
  A picture line, a line without a request, and a second picture line: the run raises,
  and only the first picture is in the output file.
\<close>

theorem line_without_quote_or_space_aborts_run_witness:
  "(\<exists>l\<in>set (file_lines (single_file ''log.txt''
        (log_line ''/images/KSC-logosmall.gif'' ''200'' @
         ''no request here'' @ [LF] @
         log_line ''/images/NASA-logosmall.gif'' ''200'')) ''log.txt''). no_quote_or_no_space l) \<and>
   no_quote_or_no_space (''no request here'' @ [LF]) \<and>
   get_last_path_element_from_log (''no request here'' @ [LF]) = Inl IndexError \<and>
   fst (create_new_file_with_filtered_elements (init ''log.txt'' ''.gif'' ''200'')
      (single_file ''log.txt''
        (log_line ''/images/KSC-logosmall.gif'' ''200'' @
         ''no request here'' @ [LF] @
         log_line ''/images/NASA-logosmall.gif'' ''200''))) = Some IndexError \<and>
   snd (create_new_file_with_filtered_elements (init ''log.txt'' ''.gif'' ''200'')
      (single_file ''log.txt''
        (log_line ''/images/KSC-logosmall.gif'' ''200'' @
         ''no request here'' @ [LF] @
         log_line ''/images/NASA-logosmall.gif'' ''200''))) ''gifs_log.txt'' =
     Some (''KSC-logosmall.gif'' @ [LF])"
proof -
  let ?stored = "log_line ''/images/KSC-logosmall.gif'' ''200'' @
         ''no request here'' @ [LF] @
         log_line ''/images/NASA-logosmall.gif'' ''200''"
  let ?files = "single_file ''log.txt'' ?stored"
  have f: "?files ''log.txt'' = Some ?stored" by (simp add: single_file_def)
  have bad: "\<exists>l\<in>set (file_lines ?files ''log.txt''). no_quote_or_no_space l" by code_simp
  have m: "no_quote_or_no_space (''no request here'' @ [LF])" by code_simp
  have ev: "concat (map (\<lambda>l. last_element l @ [LF])
      (filter (line_passes (init ''log.txt'' ''.gif'' ''200''))
         (takeWhile (\<lambda>l. \<not> no_quote_or_no_space l) (file_lines ?files ''log.txt'')))) =
    ''KSC-logosmall.gif'' @ [LF]"
    by code_simp
  from line_without_quote_or_space_aborts_run
    [of ?files "''log.txt''" ?stored "''no request here'' @ [LF]" "''.gif''" "''200''", OF f bad]
    bad m ev
  show ?thesis by simp
qed

text \<open>
  A line whose request field is \<^verbatim>\<open>GET \<close>, between two picture lines: the request
  field has no path token, so the line is malformed, but its split at single spaces has
  an empty second element. Extraction returns the empty path element without raising,
  the run succeeds, and both pictures are written.
\<close>

theorem request_without_path_counterexample:
  "malformed (''d104.aa.net - - [01/Jul/1995:00:00:15 -0400] '' @ [dquote] @ ''GET '' @
      [dquote] @ '' 200 786'' @ [LF]) \<and>
   get_last_path_element_from_log
     (''d104.aa.net - - [01/Jul/1995:00:00:15 -0400] '' @ [dquote] @ ''GET '' @
      [dquote] @ '' 200 786'' @ [LF]) = Inr [] \<and>
   fst (create_new_file_with_filtered_elements (init ''log.txt'' ''.gif'' ''200'')
      (single_file ''log.txt''
        (log_line ''/images/KSC-logosmall.gif'' ''200'' @
         ''d104.aa.net - - [01/Jul/1995:00:00:15 -0400] '' @ [dquote] @ ''GET '' @
           [dquote] @ '' 200 786'' @ [LF] @
         log_line ''/images/NASA-logosmall.gif'' ''200''))) = None \<and>
   snd (create_new_file_with_filtered_elements (init ''log.txt'' ''.gif'' ''200'')
      (single_file ''log.txt''
        (log_line ''/images/KSC-logosmall.gif'' ''200'' @
         ''d104.aa.net - - [01/Jul/1995:00:00:15 -0400] '' @ [dquote] @ ''GET '' @
           [dquote] @ '' 200 786'' @ [LF] @
         log_line ''/images/NASA-logosmall.gif'' ''200''))) ''gifs_log.txt'' =
     Some (''KSC-logosmall.gif'' @ [LF] @ ''NASA-logosmall.gif'' @ [LF])"
  by code_simp

text \<open>
  C9. The run writes the output file only: the output file name differs from the source
  file name, the source file is as it was, and so is every file other than the output
  file, whether the run succeeds or raises.
\<close>

theorem filtering_only_writes_output_file:
  "filtered_elements_filename (init fname ext code) = ''gifs_'' @ fname \<and>
   ''gifs_'' @ fname \<noteq> fname \<and>
   snd (create_new_file_with_filtered_elements (init fname ext code) files) fname = files fname \<and>
   (\<forall>f. f \<noteq> ''gifs_'' @ fname \<longrightarrow>
      snd (create_new_file_with_filtered_elements (init fname ext code) files) f = files f)"
proof -
  have ne: "''gifs_'' @ fname \<noteq> fname"
  proof
    assume "''gifs_'' @ fname = fname"
    then have "length (''gifs_'' @ fname) = length fname" by (rule arg_cong)
    then show False by simp
  qed
  have other: "snd (create_new_file_with_filtered_elements (init fname ext code) files) f = files f"
    if "f \<noteq> ''gifs_'' @ fname" for f
  proof (cases "files fname")
    case None
    then show ?thesis by (simp add: create_new_file_with_filtered_elements_def init_def)
  next
    case (Some stored)
    with that show ?thesis
      by (simp add: create_new_file_eq [of files fname stored ext code])
  qed
  from ne have "fname \<noteq> ''gifs_'' @ fname" by (rule not_sym)
  then have "snd (create_new_file_with_filtered_elements (init fname ext code) files) fname =
      files fname" by (rule other)
  moreover have "filtered_elements_filename (init fname ext code) = ''gifs_'' @ fname"
    by (simp add: init_def)
  ultimately show ?thesis using ne other by blast
qed

text \<open>
  A store with the log and one more file: after the run both hold what they held.
\<close>

theorem filtering_only_writes_output_file_witness:
  "''other.txt'' \<noteq> ''gifs_log.txt'' \<and>
   snd (create_new_file_with_filtered_elements (init ''log.txt'' ''.gif'' ''200'')
      ((single_file ''log.txt'' (log_line ''/images/KSC-logosmall.gif'' ''200''))
         (''other.txt'' \<mapsto> ''keep''))) ''other.txt'' = Some ''keep'' \<and>
   snd (create_new_file_with_filtered_elements (init ''log.txt'' ''.gif'' ''200'')
      ((single_file ''log.txt'' (log_line ''/images/KSC-logosmall.gif'' ''200''))
         (''other.txt'' \<mapsto> ''keep''))) ''log.txt'' =
     Some (log_line ''/images/KSC-logosmall.gif'' ''200'')"
proof -
  let ?files = "(single_file ''log.txt'' (log_line ''/images/KSC-logosmall.gif'' ''200''))
         (''other.txt'' \<mapsto> ''keep'')"
  have n: "''other.txt'' \<noteq> ''gifs_log.txt''" by simp
  from filtering_only_writes_output_file [of "''log.txt''" "''.gif''" "''200''" ?files]
  have a: "snd (create_new_file_with_filtered_elements (init ''log.txt'' ''.gif'' ''200'') ?files)
        ''log.txt'' = ?files ''log.txt''"
    and b: "\<forall>f. f \<noteq> ''gifs_'' @ ''log.txt'' \<longrightarrow>
      snd (create_new_file_with_filtered_elements (init ''log.txt'' ''.gif'' ''200'') ?files) f =
      ?files f"
    by blast+
  from b n have "snd (create_new_file_with_filtered_elements (init ''log.txt'' ''.gif'' ''200'')
      ?files) ''other.txt'' = ?files ''other.txt''" by simp
  with a n show ?thesis by (simp add: single_file_def)
qed

text \<open>
  C10. With the empty string as extension filter every path element passes, and for a
  source file in which every line has a double quote and a space in its request field
  the output file holds the path element of every line whose response code is the code
  filter, the empty element of a path that ends in a slash included.
\<close>

theorem empty_extension_filter_keeps_every_element:
  assumes "files fname = Some stored"
    and "\<forall>l\<in>set (file_lines files fname). \<not> no_quote_or_no_space l"
  shows "last_path_element_passes_extension_filter (init fname [] code) el \<and>
         create_new_file_with_filtered_elements (init fname [] code) files =
           (None, files(''gifs_'' @ fname \<mapsto>
              concat (map (\<lambda>l. last_element l @ [LF])
                (filter (\<lambda>l. get_response_code_from_log l = Inr code)
                   (file_lines files fname)))))"
proof -
  have ls: "file_lines files fname = read_lines_of stored"
    using assms(1) by (simp add: file_lines_def)
  with assms(2) have wf: "\<forall>l\<in>set (read_lines_of stored). \<not> no_quote_or_no_space l" by simp
  then have tw: "takeWhile (\<lambda>l. \<not> no_quote_or_no_space l) (read_lines_of stored) = read_lines_of stored"
    by (rule takeWhile_all)
  have pass: "last_path_element_passes_extension_filter (init fname [] code) e" for e
    by (simp add: last_path_element_passes_extension_filter_def init_def)
  have "line_passes (init fname [] code) l \<longleftrightarrow> get_response_code_from_log l = Inr code"
    if "l \<in> set (read_lines_of stored)" for l
  proof -
    from that wf have "\<not> no_quote_or_no_space l" by simp
    then have "get_last_path_element_from_log l = Inr (last_element l)" by (rule last_element_eq)
    moreover have "code_filter (init fname [] code) = code" by (simp add: init_def)
    ultimately show ?thesis
      by (simp add: line_passes_def pass response_code_passes_filter_def
          get_response_code_from_log_eq eq_commute)
  qed
  then have "filter (line_passes (init fname [] code)) (read_lines_of stored) =
      filter (\<lambda>l. get_response_code_from_log l = Inr code) (read_lines_of stored)"
    by (simp cong: filter_cong)
  with wf pass show ?thesis
    by (simp add: create_new_file_eq [of files fname stored "[]" code, OF assms(1)] ls tw)
qed

text \<open>
  A directory with status 200, a page with status 304 and a picture with status 200: the
  output is an empty line and the picture.
\<close>

theorem empty_extension_filter_keeps_every_element_witness:
  "filter no_quote_or_no_space (file_lines (single_file ''log.txt''
        (log_line ''/shuttle/countdown/'' ''200'' @
         log_line ''/shuttle/countdown/liftoff.html'' ''304'' @
         log_line ''/images/KSC-logosmall.gif'' ''200'')) ''log.txt'') = [] \<and>
   last_path_element_passes_extension_filter (init ''log.txt'' [] ''200'') [] \<and>
   last_element (log_line ''/shuttle/countdown/'' ''200'') = [] \<and>
   snd (create_new_file_with_filtered_elements (init ''log.txt'' [] ''200'')
      (single_file ''log.txt''
        (log_line ''/shuttle/countdown/'' ''200'' @
         log_line ''/shuttle/countdown/liftoff.html'' ''304'' @
         log_line ''/images/KSC-logosmall.gif'' ''200''))) ''gifs_log.txt'' =
     Some ([LF] @ ''KSC-logosmall.gif'' @ [LF])"
proof -
  let ?stored = "log_line ''/shuttle/countdown/'' ''200'' @
         log_line ''/shuttle/countdown/liftoff.html'' ''304'' @
         log_line ''/images/KSC-logosmall.gif'' ''200''"
  let ?files = "single_file ''log.txt'' ?stored"
  have f: "?files ''log.txt'' = Some ?stored" by (simp add: single_file_def)
  have wf: "\<forall>l\<in>set (file_lines ?files ''log.txt''). \<not> no_quote_or_no_space l" by code_simp
  have e: "last_element (log_line ''/shuttle/countdown/'' ''200'') = []" by code_simp
  have ev: "concat (map (\<lambda>l. last_element l @ [LF])
      (filter (\<lambda>l. get_response_code_from_log l = Inr ''200'') (file_lines ?files ''log.txt''))) =
    [LF] @ ''KSC-logosmall.gif'' @ [LF]"
    by code_simp
  from wf have nm: "filter no_quote_or_no_space (file_lines ?files ''log.txt'') = []"
    by (simp only: filter_empty_conv)
  from empty_extension_filter_keeps_every_element
    [of ?files "''log.txt''" ?stored "''200''" "[]", OF f wf] nm e ev
  show ?thesis by simp
qed


section \<open>Extracting the fields of a line\<close>

text \<open>
  C4. A well-formed line has a request field between its first two double quotes that
  starts with a method, one space, a path and one space, where method and path are
  non-empty and free of whitespace and double quotes. On such a line the extraction
  returns the last component of the path between slashes, which is also what the
  specification's reading gives: the text at index 1 of the split at double quotes, its
  whitespace-separated token at index 1, and the last component of that.
\<close>

theorem last_path_element_of_well_formed_line:
  assumes "line = pre @ [dquote] @ method @ [space] @ path @ [space] @ rest @ [dquote] @ post"
    and "dquote \<notin> set pre"
    and "plain_token method"
    and "plain_token path"
    and "dquote \<notin> set rest"
  shows "get_last_path_element_from_log line = Inr (last (split_on slash path)) \<and>
         get_last_path_element_from_log line = Inr (spec_last_path_element line)"
proof -
  let ?rf = "method @ [space] @ path @ [space] @ rest"
  have nq: "\<forall>c\<in>set ?rf. \<not> (c = dquote)"
    using assms(3,4,5) by (auto dest: plain_token_no_dquote)
  have "split_by (\<lambda>c. c = dquote) (pre @ dquote # (?rf @ dquote # post)) =
      pre # split_by (\<lambda>c. c = dquote) (?rf @ dquote # post)"
    using assms(2) by (intro split_by_append) auto
  moreover have "split_by (\<lambda>c. c = dquote) (?rf @ dquote # post) =
      ?rf # split_by (\<lambda>c. c = dquote) post"
    using nq by (intro split_by_append) auto
  ultimately have q: "split_on dquote line = pre # ?rf # split_on dquote post"
    by (simp add: split_on_def assms(1))
  have nsm: "\<forall>c\<in>set method. \<not> (c = space)" and nsp: "\<forall>c\<in>set path. \<not> (c = space)"
    using assms(3,4) by (metis plain_token_no_space is_space_space)+
  have "split_by (\<lambda>c. c = space) (method @ space # (path @ space # rest)) =
      method # split_by (\<lambda>c. c = space) (path @ space # rest)"
    using nsm by (intro split_by_append) auto
  moreover have "split_by (\<lambda>c. c = space) (path @ space # rest) =
      path # split_by (\<lambda>c. c = space) rest"
    using nsp by (intro split_by_append) auto
  ultimately have s: "split_on space ?rf = method # path # split_on space rest"
    by (simp add: split_on_def)
  have "split_on slash path \<noteq> []" by (simp add: split_on_def)
  then have code: "get_last_path_element_from_log line = Inr (last (split_on slash path))"
    using q s by (simp add: get_last_path_element_from_log_def py_index_one Let_def py_index_last)
  have "split_by is_space (method @ space # (path @ space # rest)) =
      method # split_by is_space (path @ space # rest)"
    using assms(3) by (intro split_by_append) (auto dest: plain_token_no_space)
  moreover have "split_by is_space (path @ space # rest) = path # split_by is_space rest"
    using assms(4) by (intro split_by_append) (auto dest: plain_token_no_space)
  moreover have "method \<noteq> []" "path \<noteq> []" using assms(3,4) by (auto simp: plain_token_def)
  ultimately have "spec_whitespace_tokens ?rf ! 1 = path"
    by (simp add: spec_whitespace_tokens_def)
  then have "spec_last_path_element line = last (split_on slash path)"
    using q by (simp add: spec_last_path_element_def)
  with code show ?thesis by simp
qed

text \<open>
  The line of the test \<^verbatim>\<open>test_get_last_path_element_from_log\<close> gives
  \<^verbatim>\<open>liftoff.html\<close>.
\<close>

theorem last_path_element_of_well_formed_line_witness:
  "plain_token ''GET'' \<and> plain_token ''/shuttle/countdown/liftoff.html'' \<and>
   get_last_path_element_from_log
     (''burger.letters.com - - [01/Jul/1995:00:00:11 -0400] '' @ [dquote] @ ''GET'' @ [space] @
      ''/shuttle/countdown/liftoff.html'' @ [space] @ ''HTTP/1.0'' @ [dquote] @ '' 304 0'') =
     Inr ''liftoff.html'' \<and>
   spec_last_path_element
     (''burger.letters.com - - [01/Jul/1995:00:00:11 -0400] '' @ [dquote] @ ''GET'' @ [space] @
      ''/shuttle/countdown/liftoff.html'' @ [space] @ ''HTTP/1.0'' @ [dquote] @ '' 304 0'') =
     ''liftoff.html''"
proof -
  let ?pre = "''burger.letters.com - - [01/Jul/1995:00:00:11 -0400] ''"
  let ?line = "?pre @ [dquote] @ ''GET'' @ [space] @
      ''/shuttle/countdown/liftoff.html'' @ [space] @ ''HTTP/1.0'' @ [dquote] @ '' 304 0''"
  have a: "dquote \<notin> set ?pre" by code_simp
  have b: "plain_token ''GET''" by code_simp
  have c: "plain_token ''/shuttle/countdown/liftoff.html''" by code_simp
  have d: "dquote \<notin> set ''HTTP/1.0''" by code_simp
  have e: "last (split_on slash ''/shuttle/countdown/liftoff.html'') = ''liftoff.html''"
    by code_simp
  note th = last_path_element_of_well_formed_line [OF refl a b c d, of "'' 304 0''"]
  from th have g: "get_last_path_element_from_log ?line =
      Inr (last (split_on slash ''/shuttle/countdown/liftoff.html''))" by (rule conjunct1)
  from th have "get_last_path_element_from_log ?line = Inr (spec_last_path_element ?line)"
    by (rule conjunct2)
  with g have sp: "spec_last_path_element ?line =
      last (split_on slash ''/shuttle/countdown/liftoff.html'')" by (metis Inr_inject)
  from g have g': "get_last_path_element_from_log ?line = Inr ''liftoff.html''"
    by (simp only: e)
  from sp have sp': "spec_last_path_element ?line = ''liftoff.html''" by (simp only: e)
  from b c g' sp' show ?thesis by blast
qed

text \<open>
  C5 (amended). The response code is taken from the split of the line at single spaces:
  the extraction never raises, and it returns the element before the last one (the
  only element when the line has no space). For a line of two or more non-empty,
  whitespace-free tokens with one space between neighbours, with or without a final
  newline, this is the second-to-last whitespace-separated token.
\<close>

theorem response_code_splits_on_single_spaces:
  "get_response_code_from_log line =
     Inr (if 2 \<le> length (split_on space line)
          then split_on space line ! (length (split_on space line) - 2)
          else last (split_on space line)) \<and>
   (2 \<le> length toks \<and> (\<forall>t\<in>set toks. t \<noteq> [] \<and> (\<forall>c\<in>set t. \<not> is_space c)) \<and>
    (ending = [] \<or> ending = [LF]) \<and> line = join_with_space toks @ ending \<longrightarrow>
      get_response_code_from_log line = Inr (toks ! (length toks - 2)) \<and>
      spec_response_code line = toks ! (length toks - 2))"
proof (intro conjI impI)
  show "get_response_code_from_log line =
     Inr (if 2 \<le> length (split_on space line)
          then split_on space line ! (length (split_on space line) - 2)
          else last (split_on space line))"
    by (rule get_response_code_from_log_eq)
next
  assume h: "2 \<le> length toks \<and> (\<forall>t\<in>set toks. t \<noteq> [] \<and> (\<forall>c\<in>set t. \<not> is_space c)) \<and>
    (ending = [] \<or> ending = [LF]) \<and> line = join_with_space toks @ ending"
  then have two: "2 \<le> length toks"
    and pl: "\<forall>t\<in>set toks. t \<noteq> [] \<and> (\<forall>c\<in>set t. \<not> is_space c)"
    and en: "ending = [] \<or> ending = [LF]"
    and line: "line = join_with_space toks @ ending" by simp_all
  from split_on_space_join [OF two pl en]
  show "get_response_code_from_log line = Inr (toks ! (length toks - 2))"
    using two by (simp add: get_response_code_from_log_eq line)
  from two have ne: "toks \<noteq> []" by auto
  from spec_tokens_join [OF ne pl] en
  have "spec_whitespace_tokens line = toks" by (auto simp: line)
  then show "spec_response_code line = toks ! (length toks - 2)"
    by (simp add: spec_response_code_def)
qed

text \<open>
  The line of the test \<^verbatim>\<open>test_get_response_code\<close>, with a final newline, gives
  \<^verbatim>\<open>304\<close>.
\<close>

theorem response_code_splits_on_single_spaces_witness:
  "get_response_code_from_log
     (join_with_space [''burger.letters.com'', ''-'', ''-'', ''[01/Jul/1995:00:00:11'', ''-0400]'',
        dquote # ''GET'', ''/shuttle/countdown/liftoff.html'', ''HTTP/1.0'' @ [dquote],
        ''304'', ''0''] @ [LF]) = Inr ''304'' \<and>
   spec_response_code
     (join_with_space [''burger.letters.com'', ''-'', ''-'', ''[01/Jul/1995:00:00:11'', ''-0400]'',
        dquote # ''GET'', ''/shuttle/countdown/liftoff.html'', ''HTTP/1.0'' @ [dquote],
        ''304'', ''0''] @ [LF]) = ''304''"
proof -
  let ?toks = "[''burger.letters.com'', ''-'', ''-'', ''[01/Jul/1995:00:00:11'', ''-0400]'',
        dquote # ''GET'', ''/shuttle/countdown/liftoff.html'', ''HTTP/1.0'' @ [dquote],
        ''304'', ''0'']"
  have two: "2 \<le> length ?toks" by simp
  have pl: "\<forall>t\<in>set ?toks. t \<noteq> [] \<and> (\<forall>c\<in>set t. \<not> is_space c)" by code_simp
  have ix: "?toks ! (length ?toks - 2) = ''304''" by simp
  from response_code_splits_on_single_spaces
    [of "join_with_space ?toks @ [LF]" ?toks "[LF]"] two pl
  have "get_response_code_from_log (join_with_space ?toks @ [LF]) =
          Inr (?toks ! (length ?toks - 2)) \<and>
        spec_response_code (join_with_space ?toks @ [LF]) = ?toks ! (length ?toks - 2)"
    by blast
  then show ?thesis unfolding ix .
qed

text \<open>
  The same line with two spaces before the last field: the split at single spaces has an
  empty element before the last one, which is returned, while the second-to-last
  whitespace-separated token is \<^verbatim>\<open>304\<close>.
\<close>

theorem response_code_two_spaces_counterexample:
  "get_response_code_from_log
     (''burger.letters.com - - [01/Jul/1995:00:00:11 -0400] '' @ [dquote] @
      ''GET /shuttle/countdown/liftoff.html HTTP/1.0'' @ [dquote] @ '' 304  0'') = Inr [] \<and>
   spec_response_code
     (''burger.letters.com - - [01/Jul/1995:00:00:11 -0400] '' @ [dquote] @
      ''GET /shuttle/countdown/liftoff.html HTTP/1.0'' @ [dquote] @ '' 304  0'') = ''304''"
  by code_simp

end
